theory Spec2Isabelle
  imports Main "HOL-Library.FSet" "HOL-Library.Multiset" "HOL-Library.Char_ord"
    "HOL-Library.List_Lexorder"
begin

section \<open>Error values\<close>

text \<open>
  A Go value of interface type \<open>error\<close> is nil or a value of some dynamic type; a value
  of interface type \<open>Aggregate\<close> is nil or a value of a type with the methods \<open>Error\<close>,
  \<open>Errors\<close> and \<open>Is\<close>. The dynamic types that \<open>errors/aggregate.go\<close> tells apart:
  \<^item> \<open>Plain i msg\<close>: an error that does not implement \<open>Aggregate\<close>; \<open>i\<close> is its
    identity and \<open>msg\<close> the text its \<open>Error()\<close> returns;
  \<^item> \<open>Agg a\<close>: an error that implements \<open>Aggregate\<close>, which is either
    \<open>aggregate errs\<close>, the package's own type \<open>aggregate []error\<close>, or
    \<open>Foreign i msg errs\<close>, a value of any other implementing type, with identity
    \<open>i\<close>, \<open>Error()\<close> text \<open>msg\<close> and \<open>Errors()\<close> result \<open>errs\<close>.
  An interface value that may be nil is an \<open>option\<close>, \<open>None\<close> being nil; a slice
  \<open>[]error\<close> is an \<open>error option list\<close>. The type assertion \<open>err.(Aggregate)\<close>
  succeeds on \<open>Some (Agg a)\<close> only.
\<close>

datatype error =
    Plain nat string
  | Agg Aggregate
and Aggregate =
    aggregate "error option list"
  | Foreign nat string "error option list"

text \<open>The method \<open>Errors()\<close>; for the package's type it is \<open>[]error(agg)\<close>.\<close>

fun Errors :: "Aggregate \<Rightarrow> error option list" where
  "Errors (aggregate agg) = agg"
| "Errors (Foreign i msg errs) = errs"

section \<open>String sets (\<open>errors/sets.go\<close>)\<close>

text \<open>
  \<open>type String map[string]Empty\<close>: the value of a key carries nothing, so the contents
  of such a map are a finite set of keys. The functions below work on the contents;
  \<open>Insert\<close> returns the contents after the insertion.
\<close>

type_synonym String = "string fset"

fun Insert :: "String \<Rightarrow> string list \<Rightarrow> String" where
  "Insert s [] = s"
| "Insert s (item # items) = Insert (finsert item s) items"

definition NewString :: "string list \<Rightarrow> String" where
  "NewString items = (let ss = {||} in Insert ss items)"

definition Has :: "String \<Rightarrow> string \<Rightarrow> bool" where
  "Has s item = (item |\<in>| s)"

definition Len :: "String \<Rightarrow> nat" where
  "Len s = fcard s"

text \<open>
  A \<open>for key := range m\<close> loop meets every key of the map once, in an order the Go
  runtime chooses. The loops below take that choice as a parameter \<open>order\<close>, a function
  from the contents of a map to the list of its keys; \<open>enumerates order\<close> says that it
  lists every key exactly once.
\<close>

definition enumerates :: "(String \<Rightarrow> string list) \<Rightarrow> bool" where
  "enumerates order = (\<forall>s. fset_of_list (order s) = s \<and> distinct (order s))"

fun IsSuperset_range :: "String \<Rightarrow> string list \<Rightarrow> bool" where
  "IsSuperset_range s [] = True"
| "IsSuperset_range s (item # items) = (if \<not> Has s item then False else IsSuperset_range s items)"

definition IsSuperset :: "(String \<Rightarrow> string list) \<Rightarrow> String \<Rightarrow> String \<Rightarrow> bool" where
  "IsSuperset order s s2 = IsSuperset_range s (order s2)"

definition Equal :: "(String \<Rightarrow> string list) \<Rightarrow> String \<Rightarrow> String \<Rightarrow> bool" where
  "Equal order s s2 = (Len s = Len s2 \<and> IsSuperset order s s2)"

text \<open>
  A Go map is a reference: \<open>walk = s\<close> makes \<open>walk\<close> another name of the map of \<open>s\<close>,
  and \<open>Insert\<close> changes the map its receiver refers to. For \<open>Intersection\<close> the maps
  live in a store, the list of the contents of every map allocated so far; a value of
  type \<open>String\<close> is then \<open>Some r\<close>, the map at index \<open>r\<close>, or \<open>None\<close>, the nil map, which
  reads as empty.
\<close>

type_synonym store = "String list"

definition deref :: "store \<Rightarrow> nat option \<Rightarrow> String" where
  "deref h s = (case s of None \<Rightarrow> {||} | Some r \<Rightarrow> h ! r)"

text \<open>The body of the loop of \<open>Intersection\<close>, and the loop over the keys met.\<close>

fun Intersection_range :: "nat option \<Rightarrow> nat \<Rightarrow> string list \<Rightarrow> store \<Rightarrow> store" where
  "Intersection_range other result [] h = h"
| "Intersection_range other result (key # keys) h =
     Intersection_range other result keys
       (if Has (deref h other) key then h[result := Insert (h ! result) [key]] else h)"

definition Intersection ::
  "(String \<Rightarrow> string list) \<Rightarrow> store \<Rightarrow> nat option \<Rightarrow> nat option \<Rightarrow> nat option \<times> store" where
  "Intersection order h s s2 =
     (let result = length h;
          h = h @ [NewString []];
          (walk, other) = (if Len (deref h s) < Len (deref h s2) then (s, s2) else (s2, s));
          h = Intersection_range other result (order (deref h walk)) h
      in (Some result, h))"

section \<open>NewAggregate\<close>

text \<open>The loop of \<open>NewAggregate\<close>: append every entry that is not nil.\<close>

fun non_nil :: "error option list \<Rightarrow> error option list" where
  "non_nil [] = []"
| "non_nil (e # errlist) = (if e \<noteq> None then e # non_nil errlist else non_nil errlist)"

definition NewAggregate :: "error option list \<Rightarrow> Aggregate option" where
  "NewAggregate errlist =
     (if length errlist = 0 then None
      else let errs = non_nil errlist in
        if length errs = 0 then None else Some (aggregate errs))"

section \<open>The traversal \<open>visit\<close>\<close>

text \<open>
  \<open>func (agg aggregate) visit(f func(err error) bool) bool\<close>. The callback of
  \<open>Error()\<close> is a closure that updates two local variables and calls \<open>err.Error()\<close>,
  which panics on a nil \<open>err\<close>; a callback is therefore a function from the error and
  the state of the captured variables to \<open>None\<close>, a panic, or to its result and the new
  state. \<open>each\<close> is the inner loop of the case \<open>Aggregate\<close>, over \<open>err.Errors()\<close>.
\<close>

type_synonym 's visitor = "error option \<Rightarrow> 's \<Rightarrow> (bool \<times> 's) option"

fun each :: "'s visitor \<Rightarrow> error option list \<Rightarrow> 's \<Rightarrow> (bool \<times> 's) option" where
  "each f [] s = Some (False, s)"
| "each f (nestedErr # errs) s =
     (case f nestedErr s of
        None \<Rightarrow> None
      | Some (match, s') \<Rightarrow> if match then Some (match, s') else each f errs s')"

fun visit :: "'s visitor \<Rightarrow> error option list \<Rightarrow> 's \<Rightarrow> (bool \<times> 's) option" where
  "visit f [] s = Some (False, s)"
| "visit f (Some (Agg (aggregate err)) # agg) s =
     (case visit f err s of
        None \<Rightarrow> None
      | Some (match, s') \<Rightarrow> if match then Some (match, s') else visit f agg s')"
| "visit f (Some (Agg (Foreign i msg errs)) # agg) s =
     (case each f errs s of
        None \<Rightarrow> None
      | Some (match, s') \<Rightarrow> if match then Some (match, s') else visit f agg s')"
| "visit f (err # agg) s =
     (case f err s of
        None \<Rightarrow> None
      | Some (match, s') \<Rightarrow> if match then Some (match, s') else visit f agg s')"

text \<open>
  The errors that the traversal hands to its callback, in the order of the calls, when
  no call reports a match: a nested \<open>aggregate\<close> is entered at any depth, the entries
  of the \<open>Errors()\<close> of another \<open>Aggregate\<close> are handed over as they are, whatever
  they are, and every other entry is handed over itself.
\<close>

fun visited :: "error option list \<Rightarrow> error option list" where
  "visited [] = []"
| "visited (Some (Agg (aggregate err)) # agg) = visited err @ visited agg"
| "visited (Some (Agg (Foreign i msg errs)) # agg) = errs @ visited agg"
| "visited (err # agg) = err # visited agg"

lemma each_cong [fundef_cong]:
  "errs = errs' \<Longrightarrow> s = s' \<Longrightarrow> (\<And>err t. err \<in> set errs' \<Longrightarrow> f err t = g err t) \<Longrightarrow>
   each f errs s = each g errs' s'"
proof (induction errs' arbitrary: errs s s')
  case Nil
  then show ?case by simp
next
  case (Cons a errs')
  then show ?case by (auto split: option.splits)
qed

lemma visit_cong [fundef_cong]:
  "agg = agg' \<Longrightarrow> s = s' \<Longrightarrow>
   (\<And>err t. err \<in> set (visited agg') \<Longrightarrow> f err t = g err t) \<Longrightarrow>
   visit f agg s = visit g agg' s'"
proof (induction f agg' s' arbitrary: agg s rule: visit.induct)
  case (1 f s)
  then show ?case by simp
next
  case (2 f err agg s)
  have a: "visit f err s = visit g err s" using 2 by auto
  show ?case using 2 a by (auto split: option.splits)
next
  case (3 f i msg errs agg s)
  have a: "each f errs s = each g errs s" using 3 by (auto intro: each_cong)
  show ?case using 3 a by (auto split: option.splits)
qed (auto split: option.splits)

lemma visited_size_le:
  "size_list (size_option size) (visited agg) \<le> size_list (size_option size) agg"
  by (induction agg rule: visited.induct) simp_all

lemma elem_size: "Some e \<in> set errs \<Longrightarrow> size e < size_list (size_option size) errs"
  by (rule size_list_estimation [where x = "Some e"]) simp_all

lemma visited_size:
  "Some e \<in> set (visited agg) \<Longrightarrow> size e < size_list (size_option size) agg"
  using elem_size [of e "visited agg"] visited_size_le [of agg] by simp

section \<open>The methods \<open>Error\<close> and \<open>Is\<close>\<close>

text \<open>
  \<open>Error e\<close> is the result of the method call \<open>e.Error()\<close> on a non-nil error:
  \<open>Some\<close> of the text, or \<open>None\<close> when the call panics, which happens when
  \<open>aggregate.Error\<close> calls \<open>Error()\<close> on a nil entry. The set \<open>seenerrs\<close> is a new map
  that no other name refers to, so its contents stand for it.
\<close>

function Error :: "error \<Rightarrow> string option" where
  "Error (Plain i msg) = Some msg"
| "Error (Agg (Foreign i msg errs)) = Some msg"
| "Error (Agg (aggregate agg)) =
     (if length agg = 0 then Some []
      else if length agg = 1 then (case agg ! 0 of None \<Rightarrow> None | Some e \<Rightarrow> Error e)
      else
        (case visit
           (\<lambda>err (seenerrs, result).
              case err of
                None \<Rightarrow> None
              | Some e \<Rightarrow>
                 (case Error e of
                    None \<Rightarrow> None
                  | Some msg \<Rightarrow>
                      if Has seenerrs msg then Some (False, (seenerrs, result))
                      else
                        let seenerrs = Insert seenerrs [msg];
                            result = (if Len seenerrs > 1 then result @ '', '' else result);
                            result = result @ msg
                        in Some (False, (seenerrs, result))))
           agg (NewString [], [])
         of
           None \<Rightarrow> None
         | Some (match, (seenerrs, result)) \<Rightarrow>
             if Len seenerrs = 1 then Some result else Some (''['' @ result @ '']'')))"
  by pat_completeness auto
termination
proof (relation "measure size")
  show "wf (measure size)" by simp
next
  fix agg :: "error option list" and e
  assume "length agg \<noteq> 0" "length agg = 1" "agg ! 0 = Some e"
  then have "Some e \<in> set agg"
    by (metis nth_mem zero_less_one)
  then show "(e, Agg (aggregate agg)) \<in> measure size"
    using elem_size [of e agg] by simp
next
  fix agg :: "error option list" and err :: "error option" and t :: "String \<times> string"
    and seenerrs :: String and result :: string and e
  assume "err \<in> set (visited agg)" "err = Some e"
  then show "(e, Agg (aggregate agg)) \<in> measure size"
    using visited_size [of e agg] by simp
qed


section \<open>FilterOut\<close>

lemma size_Errors [termination_simp]:
  "size_list (size_option size) (Errors agg) = size agg - 1"
  by (cases agg) simp_all

type_synonym Matcher = "error \<Rightarrow> bool"

fun matchesError :: "error \<Rightarrow> Matcher list \<Rightarrow> bool" where
  "matchesError err [] = False"
| "matchesError err (fn # fns) = (if fn err then True else matchesError err fns)"

text \<open>
  \<open>FilterOut\<close> returns an \<open>error\<close>: the \<open>Aggregate\<close> that \<open>NewAggregate\<close> returns is
  converted to that interface, nil staying nil.
\<close>

fun FilterOut :: "error option \<Rightarrow> Matcher list \<Rightarrow> error option"
and filterErrors :: "error option list \<Rightarrow> Matcher list \<Rightarrow> error option list" where
  "FilterOut None fns = None"
| "FilterOut (Some (Agg agg)) fns = map_option Agg (NewAggregate (filterErrors (Errors agg) fns))"
| "FilterOut (Some (Plain i msg)) fns =
     (if \<not> matchesError (Plain i msg) fns then Some (Plain i msg) else None)"
| "filterErrors [] fns = []"
| "filterErrors (err # list) fns =
     (let r = FilterOut err fns in
      if r \<noteq> None then r # filterErrors list fns else filterErrors list fns)"

section \<open>Flatten\<close>

text \<open>\<open>Flatten_range\<close> is the loop of \<open>Flatten\<close> over \<open>agg.Errors()\<close>.\<close>

fun Flatten :: "Aggregate option \<Rightarrow> Aggregate option"
and Flatten_range :: "error option list \<Rightarrow> error option list" where
  "Flatten None = None"
| "Flatten (Some agg) = NewAggregate (Flatten_range (Errors agg))"
| "Flatten_range [] = []"
| "Flatten_range (Some (Agg a) # errs) =
     (case Flatten (Some a) of
        None \<Rightarrow> Flatten_range errs
      | Some r \<Rightarrow> Errors r @ Flatten_range errs)"
| "Flatten_range (err # errs) =
     (if err \<noteq> None then err # Flatten_range errs else Flatten_range errs)"

section \<open>CreateAggregateFromMessageCountMap\<close>

text \<open>The verb \<open>%v\<close> of package \<open>fmt\<close> on an \<open>int\<close>: its decimal digits, after a minus sign when negative.\<close>

definition digit :: "nat \<Rightarrow> char" where
  "digit n = ''0123456789'' ! n"

function decimal :: "nat \<Rightarrow> string" where
  "decimal n = (if n < 10 then [digit n] else decimal (n div 10) @ [digit (n mod 10)])"
  by pat_completeness auto
termination
  by (relation "measure id") auto

definition format_int :: "int \<Rightarrow> string" where
  "format_int n = (if n < 0 then CHR ''-'' # decimal (nat (- n)) else decimal (nat n))"

text \<open>
  \<open>type MessageCountMap map[string]int\<close> is \<open>None\<close>, the nil map, or \<open>Some\<close> of its
  entries in the order in which the \<open>range\<close> loop meets them. Every \<open>fmt.Errorf\<close>
  allocates a new error value: \<open>fresh\<close> is the identity of the next one.
\<close>

type_synonym MessageCountMap = "(string \<times> int) list option"

fun CreateAggregate_range :: "nat \<Rightarrow> (string \<times> int) list \<Rightarrow> error option list" where
  "CreateAggregate_range fresh [] = []"
| "CreateAggregate_range fresh ((errStr, cnt) # m) =
     (let countStr = (if cnt > 1 then '' (repeated '' @ format_int cnt @ '' times)'' else [])
      in Some (Plain fresh (errStr @ countStr)) # CreateAggregate_range (Suc fresh) m)"

definition CreateAggregateFromMessageCountMap :: "nat \<Rightarrow> MessageCountMap \<Rightarrow> Aggregate option" where
  "CreateAggregateFromMessageCountMap fresh m =
     (case m of
        None \<Rightarrow> None
      | Some entries \<Rightarrow> NewAggregate (CreateAggregate_range fresh entries))"

section \<open>Reduce\<close>

definition Reduce :: "error option \<Rightarrow> error option" where
  "Reduce err =
     (case err of
        Some (Agg agg) \<Rightarrow>
          (if length (Errors agg) = 1 then Errors agg ! 0
           else if length (Errors agg) = 0 then None
           else err)
      | _ \<Rightarrow> err)"

section \<open>Functions of the specification\<close>

text \<open>
  The functions of this section are not translations of code: they say, in the words of
  the claims, what the code is compared with.
\<close>

text \<open>
  The leaf errors of a list: every entry, at any depth below any \<open>Aggregate\<close>, that is
  neither nil nor an \<open>Aggregate\<close>, in the order of discovery.
\<close>

fun leaves :: "error option list \<Rightarrow> error list" where
  "leaves [] = []"
| "leaves (None # errs) = leaves errs"
| "leaves (Some (Plain i msg) # errs) = Plain i msg # leaves errs"
| "leaves (Some (Agg a) # errs) = leaves (Errors a) @ leaves errs"

text \<open>No \<open>Aggregate\<close> of another type than \<open>aggregate\<close> occurs, at any depth.\<close>

fun only_aggregate :: "error option list \<Rightarrow> bool" where
  "only_aggregate [] = True"
| "only_aggregate (Some (Agg (aggregate err)) # errs) = (only_aggregate err \<and> only_aggregate errs)"
| "only_aggregate (Some (Agg (Foreign i msg err)) # errs) = False"
| "only_aggregate (err # errs) = only_aggregate errs"

text \<open>No entry is nil, at any depth.\<close>

fun no_nil :: "error option list \<Rightarrow> bool" where
  "no_nil [] = True"
| "no_nil (None # errs) = False"
| "no_nil (Some (Plain i msg) # errs) = no_nil errs"
| "no_nil (Some (Agg a) # errs) = (no_nil (Errors a) \<and> no_nil errs)"

text \<open>
  What \<open>NewAggregate\<close> builds from plain errors and from what it has built: every entry
  is a plain error or a non-empty \<open>aggregate\<close> of such entries.
\<close>

fun canonical :: "error option list \<Rightarrow> bool" where
  "canonical [] = True"
| "canonical (Some (Plain i msg) # errs) = canonical errs"
| "canonical (Some (Agg (aggregate err)) # errs) = (err \<noteq> [] \<and> canonical err \<and> canonical errs)"
| "canonical (err # errs) = False"

text \<open>
  The texts of a list of errors, each from its own \<open>Error()\<close>; \<open>None\<close> when one of the
  calls panics.
\<close>

fun messages :: "error option list \<Rightarrow> string list option" where
  "messages [] = Some []"
| "messages (None # errs) = None"
| "messages (Some e # errs) =
     (case Error e of
        None \<Rightarrow> None
      | Some msg \<Rightarrow> (case messages errs of None \<Rightarrow> None | Some msgs \<Rightarrow> Some (msg # msgs)))"

lemma length_removeAll_less [termination_simp]: "length (removeAll x xs) < Suc (length xs)"
  by (simp add: less_Suc_eq_le)

text \<open>Only the first occurrence of each element is kept.\<close>

fun keep_first :: "'a list \<Rightarrow> 'a list" where
  "keep_first [] = []"
| "keep_first (x # xs) = x # keep_first (removeAll x xs)"

fun join :: "string \<Rightarrow> string list \<Rightarrow> string" where
  "join sep [] = []"
| "join sep [x] = x"
| "join sep (x # y # zs) = x @ sep @ join sep (y # zs)"

text \<open>The joined text, bare when there is exactly one message, in brackets otherwise.\<close>

definition render :: "string list \<Rightarrow> string" where
  "render msgs = (if length msgs = 1 then join '', '' msgs else ''['' @ join '', '' msgs @ '']'')"

text \<open>The callback of \<open>aggregate.Error\<close>, as a constant of its own.\<close>

definition Error_visitor :: "(String \<times> string) visitor" where
  "Error_visitor =
     (\<lambda>err (seenerrs, result).
        case err of
          None \<Rightarrow> None
        | Some e \<Rightarrow>
           (case Error e of
              None \<Rightarrow> None
            | Some msg \<Rightarrow>
                if Has seenerrs msg then Some (False, (seenerrs, result))
                else
                  let seenerrs = Insert seenerrs [msg];
                      result = (if Len seenerrs > 1 then result @ '', '' else result);
                      result = result @ msg
                  in Some (False, (seenerrs, result))))"

text \<open>
  One step of the list of the messages seen so far, kept in the order in which they
  were first seen.
\<close>

definition seen_step :: "string list \<Rightarrow> string \<Rightarrow> string list" where
  "seen_step acc m = (if m \<in> set acc then acc else acc @ [m])"

text \<open>The text of one entry of a message count map.\<close>

fun count_message :: "string \<times> int \<Rightarrow> string" where
  "count_message (errStr, n) =
     (if n > 1 then errStr @ '' (repeated '' @ format_int n @ '' times)'' else errStr)"

text \<open>A value of type \<open>String\<close> refers to a map of the store, or is nil.\<close>

definition valid_ref :: "store \<Rightarrow> nat option \<Rightarrow> bool" where
  "valid_ref h s = (case s of None \<Rightarrow> True | Some r \<Rightarrow> r < length h)"

section \<open>Properties of NewAggregate\<close>

lemma non_nil_filter: "non_nil errlist = filter (\<lambda>e. e \<noteq> None) errlist"
  by (induction errlist) simp_all

lemma non_nil_empty_iff: "non_nil errlist = [] \<longleftrightarrow> (\<forall>e \<in> set errlist. e = None)"
  by (induction errlist) simp_all

lemma non_nil_id: "None \<notin> set errlist \<Longrightarrow> non_nil errlist = errlist"
proof (induction errlist)
  case Nil
  then show ?case by simp
next
  case (Cons a errlist)
  then show ?case by (cases a) simp_all
qed

lemma NewAggregate_eq:
  "NewAggregate errlist =
     (if non_nil errlist = [] then None else Some (aggregate (non_nil errlist)))"
  by (cases errlist) (simp_all add: NewAggregate_def Let_def)

lemma NewAggregate_Nil [simp]: "NewAggregate [] = None"
  by (simp add: NewAggregate_def)

lemma non_nil_map_Some: "non_nil (map Some xs) = map Some xs"
  by (induction xs) simp_all

lemma NewAggregate_map_Some:
  "NewAggregate (map Some xs) = (if xs = [] then None else Some (aggregate (map Some xs)))"
  by (simp add: NewAggregate_eq non_nil_map_Some)

text \<open>
  Claim C1. \<open>NewAggregate\<close> returns nil when the list is empty or holds only nil
  entries; otherwise it returns an aggregate whose \<open>Errors()\<close> is the list of the
  non-nil entries in their original order, so that a non-empty list without nil entries
  comes back as it is.
\<close>

theorem NewAggregate_spec:
  "((\<forall>e \<in> set L. e = None) \<longrightarrow> NewAggregate L = None) \<and>
   (\<not> (\<forall>e \<in> set L. e = None) \<longrightarrow>
      (\<exists>agg. NewAggregate L = Some agg \<and> Errors agg = filter (\<lambda>e. e \<noteq> None) L)) \<and>
   (L \<noteq> [] \<and> None \<notin> set L \<longrightarrow>
      (\<exists>agg. NewAggregate L = Some agg \<and> Errors agg = L))"
proof (intro conjI impI)
  assume "\<forall>e \<in> set L. e = None"
  then show "NewAggregate L = None"
    by (simp add: NewAggregate_eq non_nil_empty_iff)
next
  assume "\<not> (\<forall>e \<in> set L. e = None)"
  then have "non_nil L \<noteq> []"
    by (simp add: non_nil_empty_iff)
  then show "\<exists>agg. NewAggregate L = Some agg \<and> Errors agg = filter (\<lambda>e. e \<noteq> None) L"
    by (simp add: NewAggregate_eq non_nil_filter)
next
  assume "L \<noteq> [] \<and> None \<notin> set L"
  then show "\<exists>agg. NewAggregate L = Some agg \<and> Errors agg = L"
    by (simp add: NewAggregate_eq non_nil_id)
qed

theorem NewAggregate_spec_witness:
  "NewAggregate [None, None] = None \<and>
   NewAggregate [Some (Plain 1 ''a''), None, Some (Plain 2 ''b'')] =
     Some (aggregate [Some (Plain 1 ''a''), Some (Plain 2 ''b'')]) \<and>
   NewAggregate [Some (Plain 1 ''a''), Some (Plain 2 ''b'')] =
     Some (aggregate [Some (Plain 1 ''a''), Some (Plain 2 ''b'')])"
  using NewAggregate_spec [of "[None, None]"]
    NewAggregate_spec [of "[Some (Plain 1 ''a''), None, Some (Plain 2 ''b'')]"]
    NewAggregate_spec [of "[Some (Plain 1 ''a''), Some (Plain 2 ''b'')]"]
  by (simp add: NewAggregate_def)

section \<open>Properties of Reduce\<close>

text \<open>
  Claim C6. \<open>Reduce\<close> of an \<open>Aggregate\<close> with exactly one element returns that element
  itself, of an \<open>Aggregate\<close> with no element it returns nil, and in every other case (an
  \<open>Aggregate\<close> with two or more elements, a plain error, nil) it returns its argument.
\<close>

theorem Reduce_spec:
  "(Errors agg = [e] \<longrightarrow> Reduce (Some (Agg agg)) = e) \<and>
   (Errors agg = [] \<longrightarrow> Reduce (Some (Agg agg)) = None) \<and>
   (2 \<le> length (Errors agg) \<longrightarrow> Reduce (Some (Agg agg)) = Some (Agg agg)) \<and>
   Reduce (Some (Plain i msg)) = Some (Plain i msg) \<and>
   Reduce None = None"
proof (intro conjI impI)
  assume "Errors agg = [e]"
  then show "Reduce (Some (Agg agg)) = e" by (simp add: Reduce_def)
next
  assume "Errors agg = []"
  then show "Reduce (Some (Agg agg)) = None" by (simp add: Reduce_def)
next
  assume "2 \<le> length (Errors agg)"
  then show "Reduce (Some (Agg agg)) = Some (Agg agg)" by (auto simp: Reduce_def)
next
  show "Reduce (Some (Plain i msg)) = Some (Plain i msg)" by (simp add: Reduce_def)
next
  show "Reduce None = None" by (simp add: Reduce_def)
qed

theorem Reduce_spec_witness:
  "Reduce (map_option Agg (NewAggregate [Some (Plain 1 ''a'')])) = Some (Plain 1 ''a'') \<and>
   Reduce (Some (Agg (Foreign 0 ''f'' []))) = None \<and>
   Reduce (map_option Agg (NewAggregate [Some (Plain 1 ''a''), Some (Plain 2 ''b'')])) =
     Some (Agg (aggregate [Some (Plain 1 ''a''), Some (Plain 2 ''b'')]))"
  using Reduce_spec [of "aggregate [Some (Plain 1 ''a'')]" "Some (Plain 1 ''a'')"]
    Reduce_spec [of "Foreign 0 ''f'' []"]
    Reduce_spec [of "aggregate [Some (Plain 1 ''a''), Some (Plain 2 ''b'')]"]
  by (simp add: NewAggregate_def)

section \<open>Properties of the traversal\<close>

lemma each_append:
  "each f (xs @ ys) s =
     (case each f xs s of
        None \<Rightarrow> None
      | Some (match, s') \<Rightarrow> if match then Some (match, s') else each f ys s')"
  by (induction xs arbitrary: s) (auto split: option.splits)

text \<open>The traversal is the plain loop over the errors it reaches.\<close>

lemma visit_each: "visit f agg s = each f (visited agg) s"
  by (induction agg arbitrary: s rule: visited.induct) (auto simp: each_append split: option.splits)


lemma visited_only_aggregate:
  "only_aggregate agg \<Longrightarrow> filter (\<lambda>e. e \<noteq> None) (visited agg) = map Some (leaves agg)"
  by (induction agg rule: visited.induct) simp_all

lemma visited_Foreign:
  "Some (Agg (Foreign i msg errs)) \<in> set agg \<Longrightarrow> set errs \<subseteq> set (visited agg)"
  by (induction agg rule: visited.induct) auto




section \<open>Properties of Error\<close>

lemma Error_aggregate:
  "Error (Agg (aggregate agg)) =
     (if length agg = 0 then Some []
      else if length agg = 1 then (case agg ! 0 of None \<Rightarrow> None | Some e \<Rightarrow> Error e)
      else
        (case each Error_visitor (visited agg) (NewString [], []) of
           None \<Rightarrow> None
         | Some (match, (seenerrs, result)) \<Rightarrow>
             if Len seenerrs = 1 then Some result else Some (''['' @ result @ '']'')))"
  by (simp add: Error_visitor_def visit_each)

declare Error.simps(3) [simp del]

lemma join_snoc: "join sep (acc @ [m]) = (if acc = [] then m else join sep acc @ sep @ m)"
  by (induction sep acc rule: join.induct) auto

lemma fcard_fset_of_list_distinct: "distinct xs \<Longrightarrow> fcard (fset_of_list xs) = length xs"
  by (simp add: fcard.rep_eq fset_of_list.rep_eq distinct_card)

lemma distinct_seen_step: "distinct acc \<Longrightarrow> distinct (seen_step acc m)"
  by (simp add: seen_step_def)

lemma distinct_foldl_seen_step: "distinct acc \<Longrightarrow> distinct (foldl seen_step acc ms)"
  by (induction ms arbitrary: acc) (simp_all add: distinct_seen_step)

lemma Error_visitor_step:
  assumes "distinct acc" and "Error e = Some m"
  shows "Error_visitor (Some e) (fset_of_list acc, join '', '' acc) =
           Some (False, (fset_of_list (seen_step acc m), join '', '' (seen_step acc m)))"
proof (cases "m \<in> set acc")
  case True
  then show ?thesis
    using assms by (simp add: Error_visitor_def Has_def seen_step_def fset_of_list.rep_eq)
next
  case False
  have "fcard (fset_of_list (acc @ [m])) = Suc (length acc)"
    using assms False fcard_fset_of_list_distinct [of "acc @ [m]"] by simp
  then have c: "fcard (finsert m (fset_of_list acc)) = Suc (length acc)"
    by simp
  show ?thesis
    using assms False c
    by (simp add: Error_visitor_def Has_def Len_def seen_step_def fset_of_list.rep_eq join_snoc)
qed

lemma each_Error_visitor:
  "distinct acc \<Longrightarrow>
   each Error_visitor errs (fset_of_list acc, join '', '' acc) =
     (case messages errs of
        None \<Rightarrow> None
      | Some ms \<Rightarrow>
          Some (False, (fset_of_list (foldl seen_step acc ms), join '', '' (foldl seen_step acc ms))))"
proof (induction errs arbitrary: acc)
  case Nil
  then show ?case by simp
next
  case (Cons a errs)
  show ?case
  proof (cases a)
    case None
    then show ?thesis by (simp add: Error_visitor_def)
  next
    case (Some e)
    show ?thesis
    proof (cases "Error e")
      case None
      then show ?thesis using Some by (simp add: Error_visitor_def)
    next
      case (Some m)
      have d: "distinct (seen_step acc m)"
        using Cons.prems by (rule distinct_seen_step)
      show ?thesis
        using \<open>a = Some e\<close> Some Error_visitor_step [OF Cons.prems Some] Cons.IH [OF d]
        by (simp split: option.splits)
    qed
  qed
qed

lemma removeAll_filter: "removeAll m (filter P xs) = filter (\<lambda>x. P x \<and> x \<noteq> m) xs"
  by (induction xs) auto

lemma foldl_seen_step:
  "distinct acc \<Longrightarrow>
   foldl seen_step acc ms = acc @ keep_first (filter (\<lambda>m. m \<notin> set acc) ms)"
proof (induction ms arbitrary: acc)
  case Nil
  then show ?case by simp
next
  case (Cons m ms)
  show ?case
  proof (cases "m \<in> set acc")
    case True
    then show ?thesis using Cons by (simp add: seen_step_def)
  next
    case False
    have d: "distinct (acc @ [m])" using Cons.prems False by simp
    have "(\<lambda>x. x \<notin> set (acc @ [m])) = (\<lambda>x. x \<notin> set acc \<and> x \<noteq> m)" by auto
    then show ?thesis
      using False Cons.IH [OF d] by (simp add: seen_step_def removeAll_filter)
  qed
qed

lemma foldl_seen_step_Nil: "foldl seen_step [] ms = keep_first ms"
  using foldl_seen_step [of "[]" ms] by simp

text \<open>
  With two or more elements, \<open>Error()\<close> is the rendering of the texts of the errors
  that the traversal reaches, each kept at its first occurrence only.
\<close>

lemma Error_many:
  assumes "2 \<le> length agg"
  shows "Error (Agg (aggregate agg)) =
           map_option (\<lambda>msgs. render (keep_first msgs)) (messages (visited agg))"
proof -
  have e: "each Error_visitor (visited agg) (NewString [], []) =
     (case messages (visited agg) of
        None \<Rightarrow> None
      | Some ms \<Rightarrow> Some (False, (fset_of_list (keep_first ms), join '', '' (keep_first ms))))"
    using each_Error_visitor [of "[]" "visited agg"]
    by (simp add: NewString_def foldl_seen_step_Nil cong: option.case_cong)
  have d: "\<And>ms. distinct (keep_first ms :: string list)"
    using distinct_foldl_seen_step [of "[]"] by (simp add: foldl_seen_step_Nil)
  have n: "length agg \<noteq> 0" "length agg \<noteq> 1"
    using assms by auto
  show ?thesis
  proof (cases "messages (visited agg)")
    case None
    then show ?thesis
      using n by (simp add: Error_aggregate e)
  next
    case (Some ms)
    then show ?thesis
      using n by (simp add: Error_aggregate e render_def Len_def fcard_fset_of_list_distinct [OF d])
  qed
qed

lemma no_nil_append: "no_nil (xs @ ys) = (no_nil xs \<and> no_nil ys)"
  by (induction xs rule: no_nil.induct) simp_all

lemma no_nil_elem: "no_nil errs \<Longrightarrow> err \<in> set errs \<Longrightarrow> \<exists>e. err = Some e \<and> no_nil [Some e]"
  by (induction errs rule: no_nil.induct) auto

lemma no_nil_visited: "no_nil agg \<Longrightarrow> no_nil (visited agg)"
  by (induction agg rule: visited.induct) (simp_all add: no_nil_append)

lemma messages_Some:
  "(\<And>err. err \<in> set errs \<Longrightarrow> \<exists>e msg. err = Some e \<and> Error e = Some msg) \<Longrightarrow>
   \<exists>msgs. messages errs = Some msgs"
proof (induction errs)
  case Nil
  then show ?case by simp
next
  case (Cons a errs)
  obtain e msg where a: "a = Some e" "Error e = Some msg"
    using Cons.prems [of a] by auto
  obtain msgs where "messages errs = Some msgs"
    using Cons by auto
  then show ?case using a by simp
qed

text \<open>\<open>Error()\<close> does not panic on an error without a nil entry.\<close>

lemma Error_no_panic: "no_nil [Some e] \<Longrightarrow> \<exists>msg. Error e = Some msg"
proof (induction e rule: Error.induct)
  case (1 i msg)
  then show ?case by simp
next
  case (2 i msg errs)
  then show ?case by simp
next
  case (3 agg)
  have nn: "no_nil agg" using "3.prems" by simp
  show ?case
  proof (cases "length agg = 0")
    case True
    then show ?thesis by (simp add: Error_aggregate)
  next
    case False
    note ne = this
    show ?thesis
    proof (cases "length agg = 1")
      case True
      then have "agg ! 0 \<in> set agg" by simp
      then obtain e where e: "agg ! 0 = Some e" "no_nil [Some e]"
        using no_nil_elem [OF nn] by blast
      then show ?thesis
        using "3.IH"(1) [OF ne True e(1) e(2)] ne True by (simp add: Error_aggregate)
    next
      case False
      then have two: "2 \<le> length agg" using ne by linarith
      have "\<exists>msgs. messages (visited agg) = Some msgs"
      proof (rule messages_Some)
        fix err
        assume m: "err \<in> set (visited agg)"
        then obtain e where e: "err = Some e" "no_nil [Some e]"
          using no_nil_elem [OF no_nil_visited [OF nn]] by blast
        obtain t :: "String \<times> string" and seenerrs :: String and result :: string
          where "(seenerrs, result) = t" by simp
        then have "\<exists>msg. Error e = Some msg"
          using "3.IH"(2) [OF ne False m _ e(1) e(2)] by blast
        then show "\<exists>e msg. err = Some e \<and> Error e = Some msg"
          using e by simp
      qed
      then show ?thesis
        by (auto simp: Error_many [OF two])
    qed
  qed
qed

text \<open>
  Claim C2, as it is written, fails: an \<open>aggregate\<close> that is an entry of the
  \<open>Errors()\<close> of an \<open>Aggregate\<close> of another type is not entered. Its own \<open>Error()\<close>
  text is taken as one message, so the message \<open>x\<close> below comes twice in the result,
  where the claim gives \<open>[x, y]\<close>, the rendering of the leaf errors.
\<close>

theorem Error_transparent_counterexample:
  "Error (Agg (aggregate
     [Some (Plain 1 ''x''),
      Some (Agg (Foreign 2 ''other''
        [Some (Agg (aggregate [Some (Plain 1 ''x''), Some (Plain 3 ''y'')]))]))]))
     = Some ''[x, [x, y]]'' \<and>
   map_option (\<lambda>msgs. render (keep_first msgs)) (messages (map Some (leaves
     [Some (Plain 1 ''x''),
      Some (Agg (Foreign 2 ''other''
        [Some (Agg (aggregate [Some (Plain 1 ''x''), Some (Plain 3 ''y'')]))]))])))
     = Some ''[x, y]''"
  by (simp add: Error_many render_def)

text \<open>
  Claim C2, amended. \<open>Error()\<close> of an aggregate with exactly one element is the text
  of that element (so for \<open>NewAggregate([e])\<close>). With two or more elements the text is
  made of the messages of the errors that the traversal reaches: the traversal enters a
  nested \<open>aggregate\<close> at any depth, so that with nested values of type \<open>aggregate\<close> only
  the messages are those of all leaf errors, and it takes each entry of the \<open>Errors()\<close>
  of an \<open>Aggregate\<close> of another type with the text of the entry's own \<open>Error()\<close>. Of
  these messages, in that order, the first occurrence of each text is kept; they are
  joined with a comma and a space, and the result is bare when exactly one message is
  left and in brackets otherwise. The call returns when no entry is nil. The three
  errors of the scenario give \<open>[disk full, network timeout]\<close>.
\<close>

theorem Error_spec:
  "Error (Agg (aggregate [Some e])) = Error e \<and>
   (\<exists>a. NewAggregate [Some e] = Some a \<and> Error (Agg a) = Error e) \<and>
   (2 \<le> length agg \<longrightarrow>
      Error (Agg (aggregate agg)) =
        map_option (\<lambda>msgs. render (keep_first msgs)) (messages (visited agg))) \<and>
   (only_aggregate agg \<longrightarrow> filter (\<lambda>e. e \<noteq> None) (visited agg) = map Some (leaves agg)) \<and>
   (Some (Agg (Foreign i msg errs)) \<in> set agg \<longrightarrow> set errs \<subseteq> set (visited agg)) \<and>
   (no_nil agg \<longrightarrow> (\<exists>text. Error (Agg (aggregate agg)) = Some text)) \<and>
   (\<exists>a. NewAggregate
           [Some (Plain 1 ''disk full''), Some (Plain 2 ''disk full''),
            Some (Plain 3 ''network timeout'')] = Some a \<and>
        Error (Agg a) = Some ''[disk full, network timeout]'')"
proof (intro conjI impI)
  show "Error (Agg (aggregate [Some e])) = Error e"
    by (simp add: Error_aggregate)
next
  show "\<exists>a. NewAggregate [Some e] = Some a \<and> Error (Agg a) = Error e"
    by (simp add: NewAggregate_def Error_aggregate)
next
  assume "2 \<le> length agg"
  then show "Error (Agg (aggregate agg)) =
      map_option (\<lambda>msgs. render (keep_first msgs)) (messages (visited agg))"
    by (rule Error_many)
next
  assume "only_aggregate agg"
  then show "filter (\<lambda>e. e \<noteq> None) (visited agg) = map Some (leaves agg)"
    by (rule visited_only_aggregate)
next
  assume "Some (Agg (Foreign i msg errs)) \<in> set agg"
  then show "set errs \<subseteq> set (visited agg)"
    by (rule visited_Foreign)
next
  assume "no_nil agg"
  then have "no_nil [Some (Agg (aggregate agg))]" by simp
  then show "\<exists>text. Error (Agg (aggregate agg)) = Some text"
    by (rule Error_no_panic)
next
  show "\<exists>a. NewAggregate
           [Some (Plain 1 ''disk full''), Some (Plain 2 ''disk full''),
            Some (Plain 3 ''network timeout'')] = Some a \<and>
        Error (Agg a) = Some ''[disk full, network timeout]''"
    by (simp add: NewAggregate_def Error_many render_def)
qed

theorem Error_spec_witness:
  "Error (Agg (aggregate
     [Some (Plain 1 ''a''),
      Some (Agg (aggregate [Some (Plain 2 ''b''), Some (Plain 3 ''a'')])),
      Some (Agg (Foreign 4 ''c'' [Some (Plain 5 ''b''), Some (Plain 6 ''d'')]))]))
     = Some ''[a, b, d]'' \<and>
   Error (Agg (aggregate [Some (Plain 1 ''a''), Some (Plain 2 ''a'')])) = Some ''a''"
  using
    Error_spec [of "Plain 1 ''a''"
      "[Some (Plain 1 ''a''),
        Some (Agg (aggregate [Some (Plain 2 ''b''), Some (Plain 3 ''a'')])),
        Some (Agg (Foreign 4 ''c'' [Some (Plain 5 ''b''), Some (Plain 6 ''d'')]))]"
      4 "''c''" "[Some (Plain 5 ''b''), Some (Plain 6 ''d'')]"]
    Error_spec [of "Plain 1 ''a''" "[Some (Plain 1 ''a''), Some (Plain 2 ''a'')]"]
  by (simp add: render_def)

section \<open>Properties of Flatten\<close>

lemma leaves_append: "leaves (xs @ ys) = leaves xs @ leaves ys"
  by (induction xs rule: leaves.induct) simp_all

lemma leaves_Plain: "l \<in> set (leaves errs) \<Longrightarrow> \<exists>i msg. l = Plain i msg"
  by (induction errs rule: leaves.induct) auto

lemma leaves_map_Some:
  "(\<And>l. l \<in> set ls \<Longrightarrow> \<exists>i msg. l = Plain i msg) \<Longrightarrow> leaves (map Some ls) = ls"
proof (induction ls)
  case Nil
  then show ?case by simp
next
  case (Cons a ls)
  obtain i msg where "a = Plain i msg" using Cons.prems [of a] by auto
  then show ?case using Cons by simp
qed

lemma leaves_leaves: "leaves (map Some (leaves errs)) = leaves errs"
  by (rule leaves_map_Some) (rule leaves_Plain)

lemma leaves_non_nil: "leaves (non_nil errs) = leaves errs"
  by (induction errs rule: leaves.induct) simp_all

text \<open>The loop of \<open>Flatten\<close> collects the leaf errors, and \<open>Flatten\<close> wraps them.\<close>

lemma Flatten_leaves:
  "(case agg of None \<Rightarrow> True
    | Some a \<Rightarrow> Flatten (Some a) = NewAggregate (map Some (leaves (Errors a))))"
  "Flatten_range errs = map Some (leaves errs)"
proof (induction agg and errs rule: Flatten_Flatten_range.induct)
  case 1
  then show ?case by simp
next
  case (2 agg)
  then show ?case by simp
next
  case 3
  then show ?case by simp
next
  case (4 a errs)
  then show ?case
    by (cases "leaves (Errors a) = []") (simp_all add: NewAggregate_map_Some)
qed simp_all

lemma Flatten_Some: "Flatten (Some a) = NewAggregate (map Some (leaves (Errors a)))"
  using Flatten_leaves(1) [of "Some a"] by simp

lemma Flatten_idem: "Flatten (Flatten agg) = Flatten agg"
proof (cases agg)
  case None
  then show ?thesis by simp
next
  case (Some a)
  show ?thesis
  proof (cases "leaves (Errors a) = []")
    case True
    then show ?thesis
      using Some by (simp add: Flatten_Some NewAggregate_map_Some del: Flatten.simps(2))
  next
    case False
    then show ?thesis
      using Some
      by (simp add: Flatten_Some NewAggregate_map_Some leaves_leaves del: Flatten.simps(2))
  qed
qed

text \<open>
  Claim C5, as it is written, fails: \<open>Flatten\<close> of an aggregate without a leaf error
  is nil, not an \<open>Aggregate\<close>, and \<open>Errors()\<close> cannot be called on it. The aggregate
  below is the one that \<open>NewAggregate\<close> returns for a list of one error, an
  \<open>Aggregate\<close> of another type whose \<open>Errors()\<close> is empty.
\<close>

theorem Flatten_leafless_counterexample:
  "NewAggregate [Some (Agg (Foreign 0 ''none'' []))] =
     Some (aggregate [Some (Agg (Foreign 0 ''none'' []))]) \<and>
   Flatten (Some (aggregate [Some (Agg (Foreign 0 ''none'' []))])) = None \<and>
   \<not> (\<forall>a. \<exists>r. Flatten (Some a) = Some r \<and> Errors r = map Some (leaves (Errors a)))"
proof -
  have f: "Flatten (Some (aggregate [Some (Agg (Foreign 0 ''none'' []))])) = None"
    by (simp add: Flatten_Some del: Flatten.simps(2))
  have "\<not> (\<exists>r. Flatten (Some (aggregate [Some (Agg (Foreign 0 ''none'' []))])) = Some r \<and>
      Errors r = map Some (leaves (Errors (aggregate [Some (Agg (Foreign 0 ''none'' []))]))))"
    using f by simp
  then have "\<not> (\<forall>a. \<exists>r. Flatten (Some a) = Some r \<and> Errors r = map Some (leaves (Errors a)))"
    by blast
  then show ?thesis
    using f by (simp add: NewAggregate_def)
qed

text \<open>
  Claim C5, amended. \<open>Flatten(nil)\<close> is nil. For every aggregate \<open>a\<close>,
  \<open>Flatten(a)\<close> is what \<open>NewAggregate\<close> returns for the leaf errors of \<open>a\<close> in
  the order of discovery: nil when \<open>a\<close> has no leaf error, and otherwise an aggregate
  whose \<open>Errors()\<close> is the list of the leaf errors, none of them an \<open>Aggregate\<close> or nil.
  \<open>Flatten\<close> is idempotent: \<open>Flatten(Flatten(a))\<close> is \<open>Flatten(a)\<close>, so the two have the
  same \<open>Errors()\<close> whenever \<open>Flatten(a)\<close> is not nil.
\<close>

theorem Flatten_spec:
  "Flatten None = None \<and>
   Flatten (Some a) = NewAggregate (map Some (leaves (Errors a))) \<and>
   (leaves (Errors a) = [] \<longrightarrow> Flatten (Some a) = None) \<and>
   (leaves (Errors a) \<noteq> [] \<longrightarrow>
      (\<exists>r. Flatten (Some a) = Some r \<and> Errors r = map Some (leaves (Errors a)) \<and>
         (\<forall>e \<in> set (Errors r). \<exists>i msg. e = Some (Plain i msg)))) \<and>
   Flatten (Flatten (Some a)) = Flatten (Some a) \<and>
   (\<forall>r. Flatten (Some a) = Some r \<longrightarrow>
      (\<exists>r'. Flatten (Flatten (Some a)) = Some r' \<and> Errors r' = Errors r))"
proof (intro conjI impI allI)
  show "Flatten None = None" by simp
next
  show "Flatten (Some a) = NewAggregate (map Some (leaves (Errors a)))"
    by (rule Flatten_Some)
next
  assume "leaves (Errors a) = []"
  then show "Flatten (Some a) = None"
    by (simp add: Flatten_Some del: Flatten.simps(2))
next
  assume ne: "leaves (Errors a) \<noteq> []"
  have "\<forall>e \<in> set (map Some (leaves (Errors a))). \<exists>i msg. e = Some (Plain i msg)"
    using leaves_Plain [of _ "Errors a"] by auto
  then show "\<exists>r. Flatten (Some a) = Some r \<and> Errors r = map Some (leaves (Errors a)) \<and>
      (\<forall>e \<in> set (Errors r). \<exists>i msg. e = Some (Plain i msg))"
    using ne by (simp add: Flatten_Some NewAggregate_map_Some del: Flatten.simps(2))
next
  show "Flatten (Flatten (Some a)) = Flatten (Some a)"
    by (rule Flatten_idem)
next
  fix r
  assume "Flatten (Some a) = Some r"
  then show "\<exists>r'. Flatten (Flatten (Some a)) = Some r' \<and> Errors r' = Errors r"
    using Flatten_idem [of "Some a"] by (simp del: Flatten.simps(2))
qed

theorem Flatten_spec_witness:
  "Flatten (Some (aggregate
     [Some (Plain 1 ''a''),
      Some (Agg (aggregate [Some (Plain 2 ''b''),
        Some (Agg (Foreign 3 ''c'' [Some (Plain 4 ''d''), None]))])),
      Some (Plain 5 ''e'')]))
   = Some (aggregate
       [Some (Plain 1 ''a''), Some (Plain 2 ''b''), Some (Plain 4 ''d''), Some (Plain 5 ''e'')]) \<and>
   Flatten (Some (Foreign 0 ''none'' [])) = None"
  using
    Flatten_spec [of "aggregate
     [Some (Plain 1 ''a''),
      Some (Agg (aggregate [Some (Plain 2 ''b''),
        Some (Agg (Foreign 3 ''c'' [Some (Plain 4 ''d''), None]))])),
      Some (Plain 5 ''e'')]"]
    Flatten_spec [of "Foreign 0 ''none'' []"]
  by (simp add: NewAggregate_def del: Flatten.simps(2))

section \<open>Properties of FilterOut\<close>

lemma matchesError_iff: "matchesError err fns = (\<exists>fn \<in> set fns. fn err)"
  by (induction fns) auto

text \<open>The leaf errors of the result are the leaf errors that no matcher matches.\<close>

lemma FilterOut_leaves:
  "leaves [FilterOut err fns] = filter (\<lambda>l. \<not> matchesError l fns) (leaves [err])"
  "leaves (filterErrors list fns) = filter (\<lambda>l. \<not> matchesError l fns) (leaves list)"
proof (induction err fns and list fns rule: FilterOut_filterErrors.induct)
  case (1 fns)
  then show ?case by simp
next
  case (2 agg fns)
  have n: "leaves (non_nil (filterErrors (Errors agg) fns)) = leaves (filterErrors (Errors agg) fns)"
    by (rule leaves_non_nil)
  show ?case
  proof (cases "non_nil (filterErrors (Errors agg) fns) = []")
    case True
    then show ?thesis using 2 n by (simp add: NewAggregate_eq)
  next
    case False
    then show ?thesis using 2 n by (simp add: NewAggregate_eq)
  qed
next
  case (3 i msg fns)
  then show ?case by simp
next
  case (4 fns)
  then show ?case by simp
next
  case (5 err list fns)
  have "leaves (err # list) = leaves [err] @ leaves list"
    using leaves_append [of "[err]" list] by simp
  moreover have "leaves (FilterOut err fns # filterErrors list fns) =
      leaves [FilterOut err fns] @ leaves (filterErrors list fns)"
    using leaves_append [of "[FilterOut err fns]" "filterErrors list fns"] by simp
  ultimately show ?case
    using 5 by (cases "FilterOut err fns") (simp_all add: Let_def)
qed

lemma filterErrors_non_nil: "None \<notin> set (filterErrors list fns)"
  by (induction list) (auto simp: Let_def)


text \<open>The result is nil exactly when every leaf error is matched.\<close>

lemma FilterOut_None_iff:
  "FilterOut err fns = None \<longleftrightarrow> (\<forall>l \<in> set (leaves [err]). matchesError l fns)"
  "filterErrors list fns = [] \<longleftrightarrow> (\<forall>l \<in> set (leaves list). matchesError l fns)"
proof (induction err fns and list fns rule: FilterOut_filterErrors.induct)
  case (1 fns)
  then show ?case by simp
next
  case (2 agg fns)
  have "non_nil (filterErrors (Errors agg) fns) = filterErrors (Errors agg) fns"
    by (rule non_nil_id) (rule filterErrors_non_nil)
  then show ?case using 2 by (simp add: NewAggregate_eq)
next
  case (3 i msg fns)
  then show ?case by simp
next
  case (4 fns)
  then show ?case by simp
next
  case (5 err list fns)
  have "leaves (err # list) = leaves [err] @ leaves list"
    using leaves_append [of "[err]" list] by simp
  then show ?case
    using 5 by (cases "FilterOut err fns") (auto simp: Let_def)
qed


lemma canonical_Cons: "canonical (err # list) \<Longrightarrow> canonical [err] \<and> canonical list"
proof (cases err)
  case None
  then show "canonical (err # list) \<Longrightarrow> ?thesis" by simp
next
  case (Some e)
  show "canonical (err # list) \<Longrightarrow> ?thesis"
  proof (cases e)
    case (Plain i msg)
    then show "canonical (err # list) \<Longrightarrow> ?thesis" using Some by simp
  next
    case (Agg a)
    then show "canonical (err # list) \<Longrightarrow> ?thesis" using Some by (cases a) simp_all
  qed
qed

lemma canonical_non_nil: "canonical errs \<Longrightarrow> non_nil errs = errs"
  by (induction errs rule: canonical.induct) simp_all

text \<open>Without matchers, what \<open>NewAggregate\<close> has built comes back equal.\<close>

lemma FilterOut_canonical:
  "canonical [err] \<Longrightarrow> FilterOut err [] = err"
  "canonical list \<Longrightarrow> filterErrors list [] = list"
proof (induction err "[] :: Matcher list" and list "[] :: Matcher list"
    rule: FilterOut_filterErrors.induct)
  case 1
  then show ?case by simp
next
  case (2 agg)
  then show ?case
    by (cases agg) (simp_all add: NewAggregate_eq canonical_non_nil)
next
  case (3 i msg)
  then show ?case by simp
next
  case 4
  then show ?case by simp
next
  case (5 err list)
  have "canonical [err]" "canonical list"
    using canonical_Cons [OF "5.prems"] by simp_all
  then show ?case using 5 by (cases err) (simp_all add: Let_def)
qed

text \<open>
  Claim C4, as it is written, fails where it says that without matchers the input
  passes through unchanged: an \<open>Aggregate\<close> is always rebuilt by \<open>NewAggregate\<close>, so
  one of another type than \<open>aggregate\<close> comes back as an \<open>aggregate\<close>, with another
  \<open>Error()\<close> text.
\<close>

theorem FilterOut_unchanged_counterexample:
  "FilterOut (Some (Agg (Foreign 7 ''custom'' [Some (Plain 1 ''a''), Some (Plain 2 ''b'')]))) [] =
     Some (Agg (aggregate [Some (Plain 1 ''a''), Some (Plain 2 ''b'')])) \<and>
   FilterOut (Some (Agg (Foreign 7 ''custom'' [Some (Plain 1 ''a''), Some (Plain 2 ''b'')]))) [] \<noteq>
     Some (Agg (Foreign 7 ''custom'' [Some (Plain 1 ''a''), Some (Plain 2 ''b'')])) \<and>
   Error (Agg (Foreign 7 ''custom'' [Some (Plain 1 ''a''), Some (Plain 2 ''b'')])) =
     Some ''custom'' \<and>
   Error (Agg (aggregate [Some (Plain 1 ''a''), Some (Plain 2 ''b'')])) = Some ''[a, b]''"
  by (simp add: NewAggregate_def Error_many render_def)

text \<open>
  Claim C4, amended. \<open>FilterOut\<close> of nil is nil. \<open>FilterOut\<close> of an error that is no
  \<open>Aggregate\<close> is that error when no matcher matches it, and nil when one does.
  \<open>FilterOut\<close> of an \<open>Aggregate\<close> is nil or a new \<open>aggregate\<close>; its leaf errors are the
  leaf errors of the input that no matcher matches, in their order, at any depth, and it
  is nil exactly when every leaf error is matched. Without matchers no error is removed:
  the leaf errors are those of the input, and the result is equal to the input when the
  input is nil, a plain error, or built of plain errors and non-empty values of type
  \<open>aggregate\<close>. With a matcher that matches every error the result is nil.
\<close>

theorem FilterOut_spec:
  "FilterOut None fns = None \<and>
   FilterOut (Some (Plain i msg)) fns =
     (if \<exists>fn \<in> set fns. fn (Plain i msg) then None else Some (Plain i msg)) \<and>
   (FilterOut (Some (Agg a)) fns = None \<or>
      (\<exists>errs. FilterOut (Some (Agg a)) fns = Some (Agg (aggregate errs)))) \<and>
   leaves [FilterOut err fns] = filter (\<lambda>l. \<not> (\<exists>fn \<in> set fns. fn l)) (leaves [err]) \<and>
   (FilterOut err fns = None \<longleftrightarrow> (\<forall>l \<in> set (leaves [err]). \<exists>fn \<in> set fns. fn l)) \<and>
   leaves [FilterOut err []] = leaves [err] \<and>
   (canonical [err] \<longrightarrow> FilterOut err [] = err) \<and>
   ((\<exists>fn \<in> set fns. \<forall>e. fn e) \<longrightarrow> FilterOut err fns = None)"
proof (intro conjI impI)
  show "FilterOut None fns = None" by simp
next
  show "FilterOut (Some (Plain i msg)) fns =
      (if \<exists>fn \<in> set fns. fn (Plain i msg) then None else Some (Plain i msg))"
    by (simp add: matchesError_iff)
next
  show "FilterOut (Some (Agg a)) fns = None \<or>
      (\<exists>errs. FilterOut (Some (Agg a)) fns = Some (Agg (aggregate errs)))"
    by (simp add: NewAggregate_eq)
next
  show "leaves [FilterOut err fns] = filter (\<lambda>l. \<not> (\<exists>fn \<in> set fns. fn l)) (leaves [err])"
    using FilterOut_leaves(1) [of err fns] by (simp add: matchesError_iff)
next
  show "FilterOut err fns = None \<longleftrightarrow> (\<forall>l \<in> set (leaves [err]). \<exists>fn \<in> set fns. fn l)"
    using FilterOut_None_iff(1) [of err fns] by (simp add: matchesError_iff)
next
  show "leaves [FilterOut err []] = leaves [err]"
    using FilterOut_leaves(1) [of err "[]"] by simp
next
  assume "canonical [err]"
  then show "FilterOut err [] = err"
    by (rule FilterOut_canonical(1))
next
  assume "\<exists>fn \<in> set fns. \<forall>e. fn e"
  then have "\<forall>l \<in> set (leaves [err]). matchesError l fns"
    by (auto simp: matchesError_iff)
  then show "FilterOut err fns = None"
    using FilterOut_None_iff(1) [of err fns] by simp
qed

theorem FilterOut_spec_witness:
  "FilterOut
     (Some (Agg (aggregate
        [Some (Plain 1 ''a''),
         Some (Agg (aggregate [Some (Plain 2 ''b''), Some (Plain 3 ''a'')]))])))
     [\<lambda>e. e = Plain 2 ''b'']
   = Some (Agg (aggregate
        [Some (Plain 1 ''a''), Some (Agg (aggregate [Some (Plain 3 ''a'')]))])) \<and>
   FilterOut
     (Some (Agg (aggregate
        [Some (Plain 1 ''a''),
         Some (Agg (aggregate [Some (Plain 2 ''b''), Some (Plain 3 ''a'')]))])))
     []
   = Some (Agg (aggregate
        [Some (Plain 1 ''a''),
         Some (Agg (aggregate [Some (Plain 2 ''b''), Some (Plain 3 ''a'')]))])) \<and>
   FilterOut
     (Some (Agg (aggregate
        [Some (Plain 1 ''a''),
         Some (Agg (aggregate [Some (Plain 2 ''b''), Some (Plain 3 ''a'')]))])))
     [\<lambda>e. True]
   = None"
  using
    FilterOut_spec [of "[\<lambda>e. True]" 1 "''a''" "aggregate [Some (Plain 1 ''a'')]"
      "Some (Agg (aggregate
        [Some (Plain 1 ''a''),
         Some (Agg (aggregate [Some (Plain 2 ''b''), Some (Plain 3 ''a'')]))]))"]
  by (simp add: NewAggregate_def)



section \<open>Properties of CreateAggregateFromMessageCountMap\<close>

lemma CreateAggregate_range_enumerate:
  "CreateAggregate_range fresh entries =
     map (\<lambda>(n, entry). Some (Plain n (count_message entry))) (enumerate fresh entries)"
  by (induction fresh entries rule: CreateAggregate_range.induct) (simp_all add: Let_def)

lemma messages_CreateAggregate_range:
  "messages (CreateAggregate_range fresh entries) = Some (map count_message entries)"
  by (induction fresh entries rule: CreateAggregate_range.induct) (simp_all add: Let_def)

lemma length_CreateAggregate_range: "length (CreateAggregate_range fresh entries) = length entries"
  by (simp add: CreateAggregate_range_enumerate)

lemma CreateAggregate_range_non_nil: "None \<notin> set (CreateAggregate_range fresh entries)"
  by (auto simp: CreateAggregate_range_enumerate)

lemma CreateAggregate_eq:
  "CreateAggregateFromMessageCountMap fresh (Some entries) =
     (if entries = [] then None else Some (aggregate (CreateAggregate_range fresh entries)))"
proof -
  have "non_nil (CreateAggregate_range fresh entries) = CreateAggregate_range fresh entries"
    by (rule non_nil_id) (rule CreateAggregate_range_non_nil)
  moreover have "CreateAggregate_range fresh entries = [] \<longleftrightarrow> entries = []"
    using length_CreateAggregate_range [of fresh entries] by (metis length_0_conv)
  ultimately show ?thesis
    by (simp add: CreateAggregateFromMessageCountMap_def NewAggregate_eq)
qed

text \<open>
  Claim C8. For a message count map that is not nil,
  \<open>CreateAggregateFromMessageCountMap\<close> makes one new error for each entry of the map,
  so one for each key, since the keys of a map are distinct; the text of the error of an
  entry is the key followed by \<open>(repeated N times)\<close>, after a space, exactly when the
  count \<open>N\<close> is greater than 1, and the key alone otherwise. The errors come in the order
  in which the loop meets the entries, which Go does not fix: two orders of the same
  entries give the same texts up to order. (For a map without entries the result is
  nil, as \<open>NewAggregate\<close> returns it for no error.)
\<close>

theorem CreateAggregate_spec:
  "CreateAggregateFromMessageCountMap fresh None = None \<and>
   (entries = [] \<longrightarrow> CreateAggregateFromMessageCountMap fresh (Some entries) = None) \<and>
   (entries \<noteq> [] \<longrightarrow>
      (\<exists>errs. CreateAggregateFromMessageCountMap fresh (Some entries) = Some (aggregate errs) \<and>
         errs = map (\<lambda>(n, entry). Some (Plain n (count_message entry))) (enumerate fresh entries) \<and>
         messages errs = Some (map count_message entries) \<and>
         length errs = length entries \<and>
         (distinct (map fst entries) \<longrightarrow> length errs = card (fst ` set entries)))) \<and>
   (1 < n \<longrightarrow> count_message (errStr, n) = errStr @ '' (repeated '' @ format_int n @ '' times)'') \<and>
   (n \<le> 1 \<longrightarrow> count_message (errStr, n) = errStr) \<and>
   (mset entries' = mset entries \<longrightarrow>
      map_option mset (messages (CreateAggregate_range fresh' entries')) =
      map_option mset (messages (CreateAggregate_range fresh entries)))"
proof (intro conjI impI)
  show "CreateAggregateFromMessageCountMap fresh None = None"
    by (simp add: CreateAggregateFromMessageCountMap_def)
next
  assume "entries = []"
  then show "CreateAggregateFromMessageCountMap fresh (Some entries) = None"
    by (simp add: CreateAggregate_eq)
next
  assume ne: "entries \<noteq> []"
  have c: "distinct (map fst entries) \<longrightarrow>
      length (CreateAggregate_range fresh entries) = card (fst ` set entries)"
    using distinct_card [of "map fst entries"] by (simp add: length_CreateAggregate_range)
  show "\<exists>errs. CreateAggregateFromMessageCountMap fresh (Some entries) = Some (aggregate errs) \<and>
         errs = map (\<lambda>(n, entry). Some (Plain n (count_message entry))) (enumerate fresh entries) \<and>
         messages errs = Some (map count_message entries) \<and>
         length errs = length entries \<and>
         (distinct (map fst entries) \<longrightarrow> length errs = card (fst ` set entries))"
    using ne c messages_CreateAggregate_range [of fresh entries]
      length_CreateAggregate_range [of fresh entries]
      CreateAggregate_range_enumerate [of fresh entries]
    by (simp add: CreateAggregate_eq)
next
  assume "1 < n"
  then show "count_message (errStr, n) = errStr @ '' (repeated '' @ format_int n @ '' times)''"
    by simp
next
  assume "n \<le> 1"
  then show "count_message (errStr, n) = errStr"
    by simp
next
  assume "mset entries' = mset entries"
  then have "mset (map count_message entries') = mset (map count_message entries)"
    by (metis mset_map)
  then show "map_option mset (messages (CreateAggregate_range fresh' entries')) =
      map_option mset (messages (CreateAggregate_range fresh entries))"
    by (simp add: messages_CreateAggregate_range)
qed

theorem CreateAggregate_spec_witness:
  "CreateAggregateFromMessageCountMap 0 (Some [(''disk full'', 3), (''timeout'', 1), (''retry'', 12)]) =
     Some (aggregate
       [Some (Plain 0 ''disk full (repeated 3 times)''), Some (Plain 1 ''timeout''),
        Some (Plain 2 ''retry (repeated 12 times)'')]) \<and>
   CreateAggregateFromMessageCountMap 0 (Some []) = None"
  using
    CreateAggregate_spec [of 0 "[(''disk full'', 3), (''timeout'', 1), (''retry'', 12)]" 3
      "''disk full''" "[(''timeout'', 1), (''disk full'', 3), (''retry'', 12)]" 0]
    CreateAggregate_spec [of 0 "[]"]
  by (simp add: format_int_def decimal.simps digit_def enumerate_eq_zip upt_rec)

section \<open>Properties of Intersection\<close>

lemma deref_update:
  "other \<noteq> Some result \<Longrightarrow> deref (h[result := v]) other = deref h other"
  by (cases other) (simp_all add: deref_def)

text \<open>The loop adds to the map \<open>result\<close> the keys met that \<open>other\<close> has, and changes no other map.\<close>

lemma Intersection_range_eq:
  assumes "result < length h" and "other \<noteq> Some result"
  shows "Intersection_range other result keys h =
           h[result := h ! result |\<union>| ffilter (\<lambda>k. k |\<in>| deref h other) (fset_of_list keys)]"
  using assms
proof (induction keys arbitrary: h)
  case Nil
  have "ffilter (\<lambda>k. k |\<in>| deref h other) {||} = {||}" by auto
  then show ?case by simp
next
  case (Cons key keys)
  show ?case
  proof (cases "Has (deref h other) key")
    case True
    let ?h1 = "h[result := Insert (h ! result) [key]]"
    have l: "result < length ?h1" using Cons.prems by simp
    have d: "deref ?h1 other = deref h other"
      using Cons.prems by (simp add: deref_update)
    have "finsert key (h ! result) |\<union>| ffilter (\<lambda>k. k |\<in>| deref h other) (fset_of_list keys) =
          h ! result |\<union>| ffilter (\<lambda>k. k |\<in>| deref h other) (finsert key (fset_of_list keys))"
      using True by (auto simp: Has_def)
    then show ?thesis
      using True Cons.IH [OF l Cons.prems(2)] d Cons.prems by simp
  next
    case False
    have "ffilter (\<lambda>k. k |\<in>| deref h other) (finsert key (fset_of_list keys)) =
          ffilter (\<lambda>k. k |\<in>| deref h other) (fset_of_list keys)"
      using False by (auto simp: Has_def)
    then show ?thesis
      using False Cons.IH [OF Cons.prems] by simp
  qed
qed

lemma deref_append: "valid_ref h s \<Longrightarrow> deref (h @ xs) s = deref h s"
  by (cases s) (simp_all add: deref_def valid_ref_def nth_append)

lemma valid_ref_append: "valid_ref h s \<Longrightarrow> valid_ref (h @ xs) s"
  by (cases s) (simp_all add: valid_ref_def)

lemma valid_ref_fresh: "valid_ref h s \<Longrightarrow> s \<noteq> Some (length h)"
  by (cases s) (simp_all add: valid_ref_def)

lemma deref_last: "deref (xs @ [v]) (Some (length xs)) = v"
  by (simp add: deref_def)

lemma deref_before_last: "deref ((xs @ [v]) @ [w]) (Some (length xs)) = v"
  by (simp add: deref_def nth_append)

lemma ffilter_inter: "ffilter (\<lambda>k. k |\<in>| B) A = A |\<inter>| B"
  by auto

text \<open>
  \<open>Intersection\<close> allocates one map, which holds the keys that both operands have, and
  leaves the store as it was otherwise, whatever the order of the loop.
\<close>

lemma Intersection_eq:
  assumes "enumerates order" and "valid_ref h s" and "valid_ref h s2"
  shows "Intersection order h s s2 = (Some (length h), h @ [deref h s |\<inter>| deref h s2])"
proof -
  let ?h = "h @ [NewString []]"
  have o: "\<And>t. fset_of_list (order t) = t"
    using assms(1) by (simp add: enumerates_def)
  have r: "length h < length ?h" by simp
  have e: "?h ! length h = {||}" by (simp add: NewString_def)
  have d: "deref ?h s = deref h s" "deref ?h s2 = deref h s2"
    using assms by (simp_all add: deref_append)
  have n: "s \<noteq> Some (length h)" "s2 \<noteq> Some (length h)"
    using assms by (simp_all add: valid_ref_fresh)
  show ?thesis
  proof (cases "Len (deref h s) < Len (deref h s2)")
    case True
    then show ?thesis
      using Intersection_range_eq [OF r n(2), of "order (deref h s)"] d e o
      by (simp add: Intersection_def Let_def ffilter_inter)
  next
    case False
    then show ?thesis
      using Intersection_range_eq [OF r n(1), of "order (deref h s2)"] d e o
      by (simp add: Intersection_def Let_def ffilter_inter inf_commute)
  qed
qed

lemma IsSuperset_range_iff: "IsSuperset_range s keys = (\<forall>k \<in> set keys. k |\<in>| s)"
  by (induction keys) (simp_all add: Has_def)

lemma Equal_iff: "enumerates order \<Longrightarrow> Equal order s s2 = (s = s2)"
proof -
  assume "enumerates order"
  then have "set (order s2) = fset s2"
    by (metis enumerates_def fset_of_list.rep_eq)
  then have "IsSuperset order s s2 = (s2 |\<subseteq>| s)"
    by (auto simp: IsSuperset_def IsSuperset_range_iff)
  moreover have "fcard s = fcard s2 \<and> s2 |\<subseteq>| s \<longleftrightarrow> s = s2"
    using fcard_seteq [of s2 s] by auto
  ultimately show ?thesis
    by (simp add: Equal_def Len_def)
qed

lemma enumerates_sorted: "enumerates sorted_list_of_fset"
proof -
  have "\<And>s :: String. distinct (sorted_list_of_fset s)"
    by (simp add: sorted_list_of_fset.rep_eq)
  then show ?thesis
    by (simp add: enumerates_def)
qed

text \<open>
  Claim C9. For all string sets \<open>a\<close> and \<open>b\<close>, \<open>a.Intersection(b)\<close> and
  \<open>b.Intersection(a)\<close> are \<open>Equal\<close>, whatever the order in which each loop meets the
  keys of its map. \<open>Intersection\<close> returns a new set, a map that is neither operand and
  was not in the store before, with the keys that both operands have; the two calls
  leave every map that was in the store, so both operands, as it was.
\<close>

theorem Intersection_spec:
  assumes "enumerates order1" and "enumerates order2" and "enumerates order3"
    and "valid_ref h a" and "valid_ref h b"
  shows "\<exists>x h1 y h2.
           Intersection order1 h a b = (x, h1) \<and> Intersection order2 h1 b a = (y, h2) \<and>
           Equal order3 (deref h2 x) (deref h2 y) \<and>
           deref h1 x = deref h a |\<inter>| deref h b \<and>
           x = Some (length h) \<and> x \<noteq> a \<and> x \<noteq> b \<and>
           take (length h) h1 = h \<and> take (length h) h2 = h \<and>
           deref h2 a = deref h a \<and> deref h2 b = deref h b"
proof -
  let ?h1 = "h @ [deref h a |\<inter>| deref h b]"
  let ?h2 = "?h1 @ [deref h b |\<inter>| deref h a]"
  have i1: "Intersection order1 h a b = (Some (length h), ?h1)"
    using assms(1,4,5) by (rule Intersection_eq)
  have v: "valid_ref ?h1 a" "valid_ref ?h1 b"
    using assms by (simp_all add: valid_ref_append)
  have d1: "deref ?h1 a = deref h a" "deref ?h1 b = deref h b"
    using assms by (simp_all add: deref_append)
  have i2: "Intersection order2 ?h1 b a = (Some (length ?h1), ?h2)"
    using Intersection_eq [OF assms(2) v(2) v(1)] by (simp only: d1)
  have d2: "deref ?h2 a = deref h a" "deref ?h2 b = deref h b"
    using deref_append [OF v(1)] deref_append [OF v(2)] by (simp_all only: d1)
  have x: "deref ?h2 (Some (length h)) = deref h a |\<inter>| deref h b"
    by (rule deref_before_last)
  have y: "deref ?h2 (Some (length ?h1)) = deref h b |\<inter>| deref h a"
    by (rule deref_last)
  have "deref ?h2 (Some (length h)) = deref ?h2 (Some (length ?h1))"
    unfolding x y by (rule inf_commute)
  then have e: "Equal order3 (deref ?h2 (Some (length h))) (deref ?h2 (Some (length ?h1)))"
    using Equal_iff [OF assms(3)] by blast
  have n: "Some (length h) \<noteq> a" "Some (length h) \<noteq> b"
    using valid_ref_fresh [OF assms(4)] valid_ref_fresh [OF assms(5)] by simp_all
  have t: "take (length h) ?h1 = h" "take (length h) ?h2 = h"
    by simp_all
  have dx: "deref ?h1 (Some (length h)) = deref h a |\<inter>| deref h b"
    by (rule deref_last)
  show ?thesis
    using i1 i2 e n d2 t dx by blast
qed

theorem Intersection_spec_witness:
  "\<exists>x h1 y h2.
     Intersection sorted_list_of_fset [{|''a1'', ''a2''|}, {|''a2'', ''a3''|}] (Some 0) (Some 1) =
       (x, h1) \<and>
     Intersection sorted_list_of_fset h1 (Some 1) (Some 0) = (y, h2) \<and>
     Equal sorted_list_of_fset (deref h2 x) (deref h2 y) \<and>
     deref h1 x = {|''a2''|} \<and>
     x = Some (length [{|''a1'', ''a2''|}, {|''a2'', ''a3''|}]) \<and> x \<noteq> Some 0 \<and> x \<noteq> Some 1 \<and>
     take (length [{|''a1'', ''a2''|}, {|''a2'', ''a3''|}]) h1 =
       [{|''a1'', ''a2''|}, {|''a2'', ''a3''|}] \<and>
     take (length [{|''a1'', ''a2''|}, {|''a2'', ''a3''|}]) h2 =
       [{|''a1'', ''a2''|}, {|''a2'', ''a3''|}] \<and>
     deref h2 (Some 0) = {|''a1'', ''a2''|} \<and> deref h2 (Some 1) = {|''a2'', ''a3''|}"
proof -
  have i: "{|''a1'', ''a2''|} |\<inter>| {|''a2'', ''a3''|} = {|''a2''|}"
    by auto
  have v: "valid_ref [{|''a1'', ''a2''|}, {|''a2'', ''a3''|}] (Some 0)"
    "valid_ref [{|''a1'', ''a2''|}, {|''a2'', ''a3''|}] (Some 1)"
    by (simp_all add: valid_ref_def)
  have d: "deref [{|''a1'', ''a2''|}, {|''a2'', ''a3''|}] (Some 0) = {|''a1'', ''a2''|}"
    "deref [{|''a1'', ''a2''|}, {|''a2'', ''a3''|}] (Some 1) = {|''a2'', ''a3''|}"
    by (simp_all add: deref_def)
  show ?thesis
    using Intersection_spec [OF enumerates_sorted enumerates_sorted enumerates_sorted v]
    unfolding d i .
qed

end
